theory Spec2Isabelle
  imports Main "HOL-Library.Word"
begin

unbundle bit_operations_syntax

section \<open>Hashed n-gram augmentation of the FastText tutorial\<close>

text \<open>
  The development embeds \<^verbatim>\<open>augment_with_ngrams\<close> of
  \<^verbatim>\<open>examples/text_classification/tutorial_imdb_fasttext.py\<close>:
  \<^verbatim>\<open>
  def augment_with_ngrams(unigrams, unigram_vocab_size, n_buckets, n=2):
      def get_ngrams(n):
          return list(zip(*[unigrams[i:] for i in range(n)]))
      def hash_ngram(ngram):
          bytes_ = array.array('L', ngram).tobytes()
          hash_ = int(hashlib.sha256(bytes_).hexdigest(), 16)
          return unigram_vocab_size + hash_ % n_buckets
      return unigrams + [hash_ngram(ngram) for i in range(2, n + 1) for ngram in get_ngrams(i)]
  \<close>
  Python integers are \<open>int\<close>, lists are HOL lists, a tuple of token IDs is an \<open>int list\<close>.
  The two exceptions the body can raise are values of \<open>error\<close>, and every function
  that can raise returns \<open>error + 'a\<close>.
\<close>

subsection \<open>Errors\<close>

datatype error = OverflowError | ZeroDivisionError

text \<open>
  A list comprehension whose element expression may raise: the elements are computed left
  to right and the first exception ends the comprehension.
\<close>

fun map_result :: "('a \<Rightarrow> error + 'b) \<Rightarrow> 'a list \<Rightarrow> error + 'b list" where
  "map_result f [] = Inr []"
| "map_result f (x # xs) =
     (case f x of
        Inl e \<Rightarrow> Inl e
      | Inr y \<Rightarrow> (case map_result f xs of Inl e \<Rightarrow> Inl e | Inr ys \<Rightarrow> Inr (y # ys)))"

subsection \<open>The array module: typecode 'L' and tobytes\<close>

text \<open>
  \<^verbatim>\<open>array.array('L', ngram)\<close> stores every item as a C \<^verbatim>\<open>unsigned long\<close>.
  Its width (\<^verbatim>\<open>array.itemsize\<close>, 8 on LP64 systems and 4 on Windows and 32-bit
  systems) and the machine byte order used by \<^verbatim>\<open>tobytes\<close> belong to the platform,
  not to the script, so they are a parameter of the model.
\<close>

type_synonym byte = "8 word"

datatype byteorder = Little | Big

record platform =
  itemsize :: nat
  byteorder :: byteorder

definition lp64_le :: platform where
  "lp64_le = \<lparr>itemsize = 8, byteorder = Little\<rparr>"

text \<open>The values an \<^verbatim>\<open>unsigned long\<close> item can hold.\<close>

definition fits_L :: "platform \<Rightarrow> int \<Rightarrow> bool" where
  "fits_L p x \<longleftrightarrow> 0 \<le> x \<and> x < 2 ^ (8 * itemsize p)"

text \<open>
  The constructor converts the items in order; a negative item and an item beyond the
  range of \<^verbatim>\<open>unsigned long\<close> both raise \<^verbatim>\<open>OverflowError\<close>.
\<close>

definition array_L :: "platform \<Rightarrow> int list \<Rightarrow> error + int list" where
  "array_L p ngram = map_result (\<lambda>x. if fits_L p x then Inr x else Inl OverflowError) ngram"

definition item_bytes :: "platform \<Rightarrow> int \<Rightarrow> byte list" where
  "item_bytes p x =
     (let le = map (\<lambda>k. word_of_int (x div 256 ^ k)) [0..<itemsize p]
      in case byteorder p of Little \<Rightarrow> le | Big \<Rightarrow> rev le)"

definition tobytes :: "platform \<Rightarrow> int list \<Rightarrow> byte list" where
  "tobytes p a = concat (map (item_bytes p) a)"

subsection \<open>hashlib.sha256\<close>

text \<open>
  SHA-256 as FIPS 180-4 defines it, on 32-bit words. The digest is kept as the eight
  final working words; \<open>sha256_int\<close> is \<^verbatim>\<open>int(hashlib.sha256(b).hexdigest(), 16)\<close>,
  the digest read as one big-endian number.
\<close>

type_synonym u32 = "32 word"

definition rotr :: "nat \<Rightarrow> u32 \<Rightarrow> u32" where
  "rotr n x = drop_bit n x OR push_bit (32 - n) x"

definition Ch :: "u32 \<Rightarrow> u32 \<Rightarrow> u32 \<Rightarrow> u32" where
  "Ch x y z = (x AND y) XOR (NOT x AND z)"

definition Maj :: "u32 \<Rightarrow> u32 \<Rightarrow> u32 \<Rightarrow> u32" where
  "Maj x y z = (x AND y) XOR (x AND z) XOR (y AND z)"

definition Sigma0 :: "u32 \<Rightarrow> u32" where
  "Sigma0 x = rotr 2 x XOR rotr 13 x XOR rotr 22 x"

definition Sigma1 :: "u32 \<Rightarrow> u32" where
  "Sigma1 x = rotr 6 x XOR rotr 11 x XOR rotr 25 x"

definition sigma0 :: "u32 \<Rightarrow> u32" where
  "sigma0 x = rotr 7 x XOR rotr 18 x XOR drop_bit 3 x"

definition sigma1 :: "u32 \<Rightarrow> u32" where
  "sigma1 x = rotr 17 x XOR rotr 19 x XOR drop_bit 10 x"

definition K256 :: "u32 list" where
  "K256 =
   [0x428a2f98, 0x71374491, 0xb5c0fbcf, 0xe9b5dba5, 0x3956c25b, 0x59f111f1, 0x923f82a4, 0xab1c5ed5,
    0xd807aa98, 0x12835b01, 0x243185be, 0x550c7dc3, 0x72be5d74, 0x80deb1fe, 0x9bdc06a7, 0xc19bf174,
    0xe49b69c1, 0xefbe4786, 0x0fc19dc6, 0x240ca1cc, 0x2de92c6f, 0x4a7484aa, 0x5cb0a9dc, 0x76f988da,
    0x983e5152, 0xa831c66d, 0xb00327c8, 0xbf597fc7, 0xc6e00bf3, 0xd5a79147, 0x06ca6351, 0x14292967,
    0x27b70a85, 0x2e1b2138, 0x4d2c6dfc, 0x53380d13, 0x650a7354, 0x766a0abb, 0x81c2c92e, 0x92722c85,
    0xa2bfe8a1, 0xa81a664b, 0xc24b8b70, 0xc76c51a3, 0xd192e819, 0xd6990624, 0xf40e3585, 0x106aa070,
    0x19a4c116, 0x1e376c08, 0x2748774c, 0x34b0bcb5, 0x391c0cb3, 0x4ed8aa4a, 0x5b9cca4f, 0x682e6ff3,
    0x748f82ee, 0x78a5636f, 0x84c87814, 0x8cc70208, 0x90befffa, 0xa4506ceb, 0xbef9a3f7, 0xc67178f2]"

type_synonym state256 = "u32 \<times> u32 \<times> u32 \<times> u32 \<times> u32 \<times> u32 \<times> u32 \<times> u32"

definition H256_init :: state256 where
  "H256_init =
   (0x6a09e667, 0xbb67ae85, 0x3c6ef372, 0xa54ff53a, 0x510e527f, 0x9b05688c, 0x1f83d9ab, 0x5be0cd19)"

definition be_bytes :: "nat \<Rightarrow> int \<Rightarrow> byte list" where
  "be_bytes k v = map (\<lambda>i. word_of_int (v div 256 ^ (k - 1 - i))) [0..<k]"

text \<open>Padding: the bit 1, zeros up to 56 modulo 64 bytes, and the bit length on 8 bytes.\<close>

definition pad :: "byte list \<Rightarrow> byte list" where
  "pad m = m @ [0x80] @ replicate ((119 - length m mod 64) mod 64) 0 @ be_bytes 8 (8 * int (length m))"

fun be_words :: "byte list \<Rightarrow> u32 list" where
  "be_words (a # b # c # d # bs) =
     (push_bit 24 (ucast a) OR push_bit 16 (ucast b) OR push_bit 8 (ucast c) OR ucast d) # be_words bs"
| "be_words _ = []"

fun extend_schedule :: "nat \<Rightarrow> u32 list \<Rightarrow> u32 list" where
  "extend_schedule 0 w = w"
| "extend_schedule (Suc k) w =
     (let t = length w
      in extend_schedule k
           (w @ [sigma1 (w ! (t - 2)) + w ! (t - 7) + sigma0 (w ! (t - 15)) + w ! (t - 16)]))"

fun round256 :: "state256 \<Rightarrow> u32 \<times> u32 \<Rightarrow> state256" where
  "round256 (a, b, c, d, e, f, g, h) (k, w) =
     (let t1 = h + Sigma1 e + Ch e f g + k + w;
          t2 = Sigma0 a + Maj a b c
      in (t1 + t2, a, b, c, d + t1, e, f, g))"

fun add256 :: "state256 \<Rightarrow> state256 \<Rightarrow> state256" where
  "add256 (a, b, c, d, e, f, g, h) (a', b', c', d', e', f', g', h') =
     (a + a', b + b', c + c', d + d', e + e', f + f', g + g', h + h')"

definition compress :: "state256 \<Rightarrow> u32 list \<Rightarrow> state256" where
  "compress hs block = add256 hs (foldl round256 hs (zip K256 (extend_schedule 48 block)))"

fun blocks :: "u32 list \<Rightarrow> u32 list list" where
  "blocks ws = (if length ws < 16 then [] else take 16 ws # blocks (drop 16 ws))"

definition sha256 :: "byte list \<Rightarrow> state256" where
  "sha256 m = foldl compress H256_init (blocks (be_words (pad m)))"

fun digest_int :: "state256 \<Rightarrow> int" where
  "digest_int (a, b, c, d, e, f, g, h) =
     foldl (\<lambda>acc w. acc * 2 ^ 32 + uint w) 0 [a, b, c, d, e, f, g, h]"

definition sha256_int :: "byte list \<Rightarrow> int" where
  "sha256_int m = digest_int (sha256 m)"

subsection \<open>The augmenter\<close>

text \<open>
  \<^verbatim>\<open>zip(*lists)\<close>: nothing for no list at all, otherwise tuples of the heads until the
  shortest list is exhausted.
\<close>

function zip_star :: "'a list list \<Rightarrow> 'a list list" where
  "zip_star xss =
     (if xss = [] \<or> [] \<in> set xss then [] else map hd xss # zip_star (map tl xss))"
  by pat_completeness auto
termination
  by (relation "measure (\<lambda>xss. length (hd xss))") (auto simp: hd_map neq_Nil_conv)

declare zip_star.simps [simp del]

text \<open>\<^verbatim>\<open>get_ngrams(n)\<close>; \<^verbatim>\<open>range(n)\<close> is empty for \<open>n \<le> 0\<close>.\<close>

definition get_ngrams :: "int list \<Rightarrow> int \<Rightarrow> int list list" where
  "get_ngrams unigrams n = zip_star (map (\<lambda>i. drop i unigrams) [0..<nat n])"

text \<open>
  \<^verbatim>\<open>hash_ngram(ngram)\<close>: the array constructor may raise \<^verbatim>\<open>OverflowError\<close>, then
  \<^verbatim>\<open>%\<close> raises \<^verbatim>\<open>ZeroDivisionError\<close> for a zero modulus. Python's \<^verbatim>\<open>%\<close> on
  integers takes the sign of the divisor, as \<open>mod\<close> on \<open>int\<close> does.
\<close>

definition hash_ngram :: "platform \<Rightarrow> int \<Rightarrow> int \<Rightarrow> int list \<Rightarrow> error + int" where
  "hash_ngram p unigram_vocab_size n_buckets ngram =
     (case array_L p ngram of
        Inl e \<Rightarrow> Inl e
      | Inr a \<Rightarrow>
          (let bytes = tobytes p a;
               hash = sha256_int bytes
           in if n_buckets = 0 then Inl ZeroDivisionError
              else Inr (unigram_vocab_size + hash mod n_buckets)))"

text \<open>
  The n-grams the comprehension
  \<^verbatim>\<open>for i in range(2, n + 1) for ngram in get_ngrams(i)\<close> runs through, in its order.
\<close>

definition ngram_windows :: "int list \<Rightarrow> int \<Rightarrow> int list list" where
  "ngram_windows unigrams n = concat (map (get_ngrams unigrams) [2..n])"

definition augment_with_ngrams ::
    "platform \<Rightarrow> int list \<Rightarrow> int \<Rightarrow> int \<Rightarrow> int \<Rightarrow> error + int list" where
  "augment_with_ngrams p unigrams unigram_vocab_size n_buckets n =
     (case map_result (hash_ngram p unigram_vocab_size n_buckets) (ngram_windows unigrams n) of
        Inl e \<Rightarrow> Inl e
      | Inr hashed \<Rightarrow> Inr (unigrams @ hashed))"

text \<open>
  The feature ID of one window in the specification's words: the serialized window is
  hashed, the hash is reduced modulo the bucket count and shifted past the vocabulary.
\<close>

definition feature_id :: "platform \<Rightarrow> int \<Rightarrow> int \<Rightarrow> int list \<Rightarrow> int" where
  "feature_id p vocab_size n_buckets window =
     vocab_size + sha256_int (tobytes p window) mod n_buckets"

section \<open>Properties\<close>

subsection \<open>Comprehensions\<close>

lemma map_result_Inr_iff:
  "map_result f xs = Inr ys \<longleftrightarrow> map f xs = map Inr ys"
proof (induction xs arbitrary: ys)
  case Nil
  show ?case by auto
next
  case (Cons x xs)
  show ?case
  proof (cases "f x")
    case (Inl e)
    then show ?thesis by (cases ys) auto
  next
    case fx: (Inr y)
    show ?thesis
    proof (cases "map_result f xs")
      case (Inl e)
      have "map f xs \<noteq> map Inr zs" for zs
        using Cons.IH [of zs] Inl by auto
      with fx Inl show ?thesis by (cases ys) auto
    next
      case (Inr zs)
      then have "map f xs = map Inr zs"
        using Cons.IH [of zs] by simp
      with fx Inr show ?thesis
        by (cases ys) (auto simp: inj_map_eq_map [OF inj_Inr])
    qed
  qed
qed

lemma map_result_map:
  "(\<And>x. x \<in> set xs \<Longrightarrow> f x = Inr (g x)) \<Longrightarrow> map_result f xs = Inr (map g xs)"
  by (induction xs) auto



subsection \<open>Windows\<close>

lemma zip_star_Nil: "zip_star [] = []"
  by (simp add: zip_star.simps)

lemma zip_star_exhausted: "[] \<in> set xss \<Longrightarrow> zip_star xss = []"
  by (simp add: zip_star.simps)

lemma zip_star_step:
  "xss \<noteq> [] \<Longrightarrow> [] \<notin> set xss \<Longrightarrow> zip_star xss = map hd xss # zip_star (map tl xss)"
  by (subst zip_star.simps) simp

lemma take_eq_map_hd_drop:
  "k \<le> length xs \<Longrightarrow> map (\<lambda>i. hd (drop i xs)) [0..<k] = take k xs"
  by (rule nth_equalityI) (auto simp: hd_drop_conv_nth)

lemma zip_star_slices:
  "0 < k \<Longrightarrow>
   zip_star (map (\<lambda>i. drop i xs) [0..<k]) =
   map (\<lambda>i. take k (drop i xs)) [0..<length xs + 1 - k]"
proof (induction xs)
  case Nil
  then have "[] \<in> set (map (\<lambda>i. drop i ([]::'a list)) [0..<k])"
    by auto
  then show ?case
    using Nil by (simp add: zip_star_exhausted)
next
  case (Cons x xs)
  let ?S = "map (\<lambda>i. drop i (x # xs)) [0..<k]"
  show ?case
  proof (cases "k \<le> length (x # xs)")
    case False
    then have "drop (k - 1) (x # xs) = []" by simp
    moreover have "k - 1 \<in> set [0..<k]" using Cons.prems by simp
    ultimately have "[] \<in> set ?S"
      by (metis (mono_tags, lifting) image_eqI list.set_map)
    with False show ?thesis
      by (simp add: zip_star_exhausted)
  next
    case True
    have ne: "?S \<noteq> []" using Cons.prems by simp
    have nin: "[] \<notin> set ?S" using True by auto
    have hd: "map hd ?S = take k (x # xs)"
      using take_eq_map_hd_drop [OF True] by (simp add: comp_def)
    have tl: "map tl ?S = map (\<lambda>i. drop i xs) [0..<k]"
      by (simp add: comp_def drop_Suc tl_drop)
    have idx: "[0..<length (x # xs) + 1 - k] = 0 # map Suc [0..<length xs + 1 - k]"
      using True by (simp add: upt_conv_Cons map_Suc_upt Suc_diff_le)
    show ?thesis
      unfolding zip_star_step [OF ne nin] hd tl Cons.IH [OF Cons.prems] idx
      by (simp add: comp_def)
  qed
qed

lemma get_ngrams_windows:
  "1 \<le> n \<Longrightarrow>
   get_ngrams unigrams n =
   map (\<lambda>i. take (nat n) (drop i unigrams)) [0..<length unigrams + 1 - nat n]"
  unfolding get_ngrams_def by (rule zip_star_slices) simp

lemma get_ngrams_nonpositive: "n \<le> 0 \<Longrightarrow> get_ngrams unigrams n = []"
  by (simp add: get_ngrams_def zip_star_Nil)


lemma ngram_windows_eq:
  "ngram_windows unigrams N =
   concat (map (\<lambda>n. map (\<lambda>i. take (nat n) (drop i unigrams)) [0..<length unigrams + 1 - nat n]) [2..N])"
  unfolding ngram_windows_def
  by (rule arg_cong [where f = concat], rule map_cong) (auto simp: get_ngrams_windows)

lemma ngram_windows_subset:
  "w \<in> set (ngram_windows unigrams N) \<Longrightarrow> set w \<subseteq> set unigrams"
  by (auto simp: ngram_windows_eq dest!: in_set_takeD in_set_dropD)



lemma ngram_windows_empty_iff:
  "ngram_windows unigrams N = [] \<longleftrightarrow> N < 2 \<or> length unigrams < 2"
proof -
  have "ngram_windows unigrams N = [] \<longleftrightarrow> (\<forall>n \<in> {2..N}. length unigrams < nat n)"
    by (auto simp: ngram_windows_eq)
  also have "\<dots> \<longleftrightarrow> N < 2 \<or> length unigrams < 2"
    by (auto dest: bspec [where x = 2])
  finally show ?thesis .
qed






subsection \<open>Adjacent tokens\<close>





subsection \<open>Hashing one n-gram\<close>

lemma array_L_fits: "(\<forall>x \<in> set w. fits_L p x) \<Longrightarrow> array_L p w = Inr w"
  unfolding array_L_def by (induction w) auto

lemma array_L_overflow: "\<not> (\<forall>x \<in> set w. fits_L p x) \<Longrightarrow> array_L p w = Inl OverflowError"
  unfolding array_L_def by (induction w) (auto split: sum.splits)

lemma hash_ngram_cases:
  "hash_ngram p V B w =
     (if \<not> (\<forall>x \<in> set w. fits_L p x) then Inl OverflowError
      else if B = 0 then Inl ZeroDivisionError
      else Inr (feature_id p V B w))"
  by (simp add: hash_ngram_def array_L_fits array_L_overflow feature_id_def Let_def)

lemma hash_ngram_Inr_iff:
  "hash_ngram p V B w = Inr f \<longleftrightarrow>
     (\<forall>x \<in> set w. fits_L p x) \<and> B \<noteq> 0 \<and> f = feature_id p V B w"
  by (auto simp: hash_ngram_cases)


subsection \<open>The whole call\<close>

lemma augment_returns:
  assumes "\<forall>w \<in> set (ngram_windows unigrams N). \<forall>x \<in> set w. fits_L p x"
    and "B \<noteq> 0 \<or> ngram_windows unigrams N = []"
  shows "augment_with_ngrams p unigrams V B N =
         Inr (unigrams @ map (feature_id p V B) (ngram_windows unigrams N))"
proof -
  have "map_result (hash_ngram p V B) (ngram_windows unigrams N) =
        Inr (map (feature_id p V B) (ngram_windows unigrams N))"
    using assms by (intro map_result_map) (auto simp: hash_ngram_cases)
  then show ?thesis
    by (simp add: augment_with_ngrams_def)
qed

lemma augment_valid:
  assumes "\<forall>x \<in> set unigrams. fits_L p x" and "B \<noteq> 0"
  shows "augment_with_ngrams p unigrams V B N =
         Inr (unigrams @ map (feature_id p V B) (ngram_windows unigrams N))"
  using assms by (intro augment_returns) (auto dest: ngram_windows_subset)

lemma augment_Inr_D:
  assumes "augment_with_ngrams p unigrams V B N = Inr out"
  shows "out = unigrams @ map (feature_id p V B) (ngram_windows unigrams N)"
    and "\<forall>w \<in> set (ngram_windows unigrams N). \<forall>x \<in> set w. fits_L p x"
    and "B \<noteq> 0 \<or> ngram_windows unigrams N = []"
proof -
  let ?ws = "ngram_windows unigrams N"
  from assms obtain hashed where h: "map_result (hash_ngram p V B) ?ws = Inr hashed"
    and out: "out = unigrams @ hashed"
    by (auto simp: augment_with_ngrams_def split: sum.splits)
  from h have m: "map (hash_ngram p V B) ?ws = map Inr hashed"
    by (simp add: map_result_Inr_iff)
  then have len: "length hashed = length ?ws"
    by (metis length_map)
  have each: "hash_ngram p V B (?ws ! i) = Inr (hashed ! i)" if "i < length ?ws" for i
    using that len arg_cong [OF m, of "\<lambda>l. l ! i"] by simp
  have "hashed = map (feature_id p V B) ?ws"
    by (rule nth_equalityI) (use len each in \<open>auto simp: hash_ngram_Inr_iff\<close>)
  with out show "out = unigrams @ map (feature_id p V B) ?ws" by simp
  show "\<forall>w \<in> set ?ws. \<forall>x \<in> set w. fits_L p x"
  proof
    fix w assume "w \<in> set ?ws"
    then obtain i where "i < length ?ws" "w = ?ws ! i"
      by (auto simp: in_set_conv_nth)
    with each [of i] show "\<forall>x \<in> set w. fits_L p x"
      by (simp add: hash_ngram_Inr_iff)
  qed
  show "B \<noteq> 0 \<or> ?ws = []"
    using each [of 0] by (cases ?ws) (auto simp: hash_ngram_Inr_iff)
qed





subsection \<open>Serialization\<close>

lemma length_item_bytes: "length (item_bytes p x) = itemsize p"
  by (simp add: item_bytes_def Let_def split: byteorder.split)

lemma length_tobytes: "length (tobytes p w) = length w * itemsize p"
  by (induction w) (simp_all add: tobytes_def length_item_bytes)

lemma tobytes_Cons: "tobytes p (x # w) = item_bytes p x @ tobytes p w"
  by (simp add: tobytes_def)

lemma tobytes_item:
  "k < length w \<Longrightarrow>
   take (itemsize p) (drop (k * itemsize p) (tobytes p w)) = item_bytes p (w ! k)"
proof (induction w arbitrary: k)
  case Nil
  then show ?case by simp
next
  case (Cons x w)
  show ?case
  proof (cases k)
    case 0
    then show ?thesis
      by (simp add: tobytes_Cons length_item_bytes)
  next
    case (Suc j)
    with Cons.prems have "j < length w" by simp
    from Cons.IH [OF this] Suc show ?thesis
      by (simp add: tobytes_Cons length_item_bytes)
  qed
qed

lemma le_bytes_eq_imp_mod_eq:
  "map (\<lambda>k. (word_of_int (x div 256 ^ k) :: byte)) [0..<s] =
   map (\<lambda>k. word_of_int (y div 256 ^ k)) [0..<s] \<Longrightarrow>
   x mod 256 ^ s = y mod 256 ^ s"
proof (induction s)
  case 0
  show ?case by simp
next
  case (Suc s)
  from Suc.prems have low: "x mod 256 ^ s = y mod 256 ^ s"
    by (intro Suc.IH) simp
  from Suc.prems have "(word_of_int (x div 256 ^ s) :: byte) = word_of_int (y div 256 ^ s)"
    by simp
  then have high: "x div 256 ^ s mod 256 = y div 256 ^ s mod 256"
    by (simp add: word_of_int_eq_iff take_bit_eq_mod)
  have "x mod (256 ^ s * 256) = y mod (256 ^ s * 256)"
    by (simp add: zmod_zmult2_eq low high)
  then show ?case by (simp add: mult.commute)
qed

lemma item_bytes_inj:
  assumes "fits_L p x" and "fits_L p y" and "item_bytes p x = item_bytes p y"
  shows "x = y"
proof -
  from assms(3)
  have "map (\<lambda>k. (word_of_int (x div 256 ^ k) :: byte)) [0..<itemsize p] =
        map (\<lambda>k. word_of_int (y div 256 ^ k)) [0..<itemsize p]"
    by (cases "byteorder p") (simp_all add: item_bytes_def Let_def)
  then have "x mod 256 ^ itemsize p = y mod 256 ^ itemsize p"
    by (rule le_bytes_eq_imp_mod_eq)
  moreover have "(2::int) ^ (8 * itemsize p) = 256 ^ itemsize p"
    by (simp add: power_mult)
  ultimately show ?thesis
    using assms(1,2) by (simp add: fits_L_def)
qed

lemma tobytes_inj_same_length:
  assumes "length w1 = length w2"
    and "\<forall>x \<in> set w1. fits_L p x" and "\<forall>x \<in> set w2. fits_L p x"
    and "tobytes p w1 = tobytes p w2"
  shows "w1 = w2"
  using assms
proof (induction w1 w2 rule: list_induct2)
  case Nil
  show ?case by simp
next
  case (Cons x xs y ys)
  from Cons.prems(3) have "item_bytes p x = item_bytes p y \<and> tobytes p xs = tobytes p ys"
    by (simp add: tobytes_Cons length_item_bytes)
  with Cons show ?case
    by (auto dest: item_bytes_inj)
qed

lemma tobytes_inj:
  assumes "0 < itemsize p"
    and "\<forall>x \<in> set w1. fits_L p x" and "\<forall>x \<in> set w2. fits_L p x"
    and "tobytes p w1 = tobytes p w2"
  shows "w1 = w2"
proof -
  from assms(4) have "length w1 * itemsize p = length w2 * itemsize p"
    by (metis length_tobytes)
  with assms(1) have "length w1 = length w2" by simp
  then show ?thesis
    using assms(2-4) by (rule tobytes_inj_same_length)
qed

lemma digest_int_range: "0 \<le> digest_int s \<and> digest_int s < 2 ^ 256"
proof -
  obtain a b c d e f g h where s: "s = (a, b, c, d, e, f, g, h)"
    by (cases s) auto
  have step: "0 \<le> acc * 2 ^ 32 + uint w \<and> acc * 2 ^ 32 + uint w < 2 ^ (k + 32)"
    if "0 \<le> acc \<and> acc < 2 ^ k" for acc :: int and w :: u32 and k :: nat
  proof -
    have "uint w < 2 ^ 32" "0 \<le> uint w"
      using uint_lt2p [of w] by simp_all
    moreover have "(acc + 1) * 2 ^ 32 \<le> 2 ^ k * (2 ^ 32 :: int)"
      using that by (intro mult_right_mono) simp_all
    ultimately show ?thesis
      using that by (simp add: power_add algebra_simps)
  qed
  have "0 \<le> (0::int) \<and> (0::int) < 2 ^ 0" by simp
  from step [OF this, of a] have "0 \<le> uint a \<and> uint a < 2 ^ 32" by simp
  from step [OF this, of b] step [OF step [OF this, of b], of c]
  have "0 \<le> (uint a * 2 ^ 32 + uint b) * 2 ^ 32 + uint c \<and>
        (uint a * 2 ^ 32 + uint b) * 2 ^ 32 + uint c < 2 ^ 96"
    by simp
  from step [OF step [OF step [OF step [OF step [OF this, of d], of e], of f], of g], of h]
  show ?thesis
    by (simp add: s)
qed

lemma sha256_int_range: "0 \<le> sha256_int m \<and> sha256_int m < 2 ^ 256"
  unfolding sha256_int_def by (rule digest_int_range)

subsection \<open>Evaluated digests\<close>

text \<open>
  The model of SHA-256 on the FIPS 180-4 example \<open>abc\<close>, and on the two windows
  \<open>(1, 2)\<close> and \<open>(2, 1)\<close> as an LP64 little-endian machine serializes them.
\<close>

lemma sha256_int_abc:
  "sha256_int [0x61, 0x62, 0x63] =
   0xba7816bf8f01cfea414140de5dae2223b00361a396177a9cb410ff61f20015ad"
  by code_simp

lemma tobytes_1_2: "tobytes lp64_le [1, 2] = [1, 0, 0, 0, 0, 0, 0, 0, 2, 0, 0, 0, 0, 0, 0, 0]"
  by (simp add: tobytes_def item_bytes_def lp64_le_def upt_rec)


lemma sha256_int_1_2:
  "sha256_int [1, 0, 0, 0, 0, 0, 0, 0, 2, 0, 0, 0, 0, 0, 0, 0] =
   5631020360655894817152367856431037431645522516436898758847378847018916643121"
  by code_simp




section \<open>The claims\<close>







text \<open>
  C3. For a window whose tokens fit the array item type and a bucket count that is not
  zero, \<open>hash_ngram\<close> returns a feature ID: the vocabulary size plus the SHA-256 digest
  of the serialized window, read as an unsigned integer and reduced modulo the bucket
  count. The serialization has a fixed width, one item of
  \<open>itemsize\<close> bytes per token in the order of the window. The ID belongs to the window
  alone: wherever the window occurs among the n-grams of any sequence and maximal order,
  the result of \<open>augment_with_ngrams\<close> carries this ID at that place.
\<close>

theorem hash_ngram_feature_id:
  assumes "\<forall>x \<in> set w. fits_L p x" and "B \<noteq> 0"
  shows "\<exists>f. hash_ngram p V B w = Inr f \<and>
           f = V + sha256_int (tobytes p w) mod B \<and>
           0 \<le> sha256_int (tobytes p w) \<and> sha256_int (tobytes p w) < 2 ^ 256 \<and>
           length (tobytes p w) = length w * itemsize p \<and>
           (\<forall>k < length w.
              take (itemsize p) (drop (k * itemsize p) (tobytes p w)) = item_bytes p (w ! k)) \<and>
           (\<forall>unigrams N out j.
              augment_with_ngrams p unigrams V B N = Inr out \<and>
              j < length (ngram_windows unigrams N) \<and> ngram_windows unigrams N ! j = w \<longrightarrow>
              out ! (length unigrams + j) = f)"
proof -
  let ?f = "feature_id p V B w"
  have ret: "hash_ngram p V B w = Inr ?f"
    using assms by (simp add: hash_ngram_cases)
  have occ: "\<forall>unigrams N out j.
      augment_with_ngrams p unigrams V B N = Inr out \<and>
      j < length (ngram_windows unigrams N) \<and> ngram_windows unigrams N ! j = w \<longrightarrow>
      out ! (length unigrams + j) = ?f"
  proof (intro allI impI, elim conjE)
    fix unigrams N out j
    assume "augment_with_ngrams p unigrams V B N = Inr out"
      and "j < length (ngram_windows unigrams N)" and "ngram_windows unigrams N ! j = w"
    with augment_Inr_D(1) [of p unigrams V B N out]
    show "out ! (length unigrams + j) = ?f" by simp
  qed
  have "?f = V + sha256_int (tobytes p w) mod B"
    by (simp add: feature_id_def)
  moreover have "\<forall>k < length w.
      take (itemsize p) (drop (k * itemsize p) (tobytes p w)) = item_bytes p (w ! k)"
    by (simp add: tobytes_item)
  ultimately show ?thesis
    using ret occ sha256_int_range [of "tobytes p w"] length_tobytes [of p w] by blast
qed

theorem hash_ngram_feature_id_witness:
  "list_all (fits_L lp64_le) [1, 2] \<and> (1000000 :: int) \<noteq> 0 \<and>
   hash_ngram lp64_le 100000 1000000 [1, 2] = Inr 743121 \<and>
   length (tobytes lp64_le [1, 2]) = 16 \<and>
   take 8 (drop 8 (tobytes lp64_le [1, 2])) = item_bytes lp64_le 2 \<and>
   (\<exists>out. augment_with_ngrams lp64_le [5, 1, 2] 100000 1000000 2 = Inr out \<and> out ! 4 = 743121)"
proof -
  have fits: "fits_L lp64_le 5" "fits_L lp64_le 1" "fits_L lp64_le 2"
    by (simp_all add: fits_L_def lp64_le_def)
  then have v: "\<forall>x \<in> set [1, 2]. fits_L lp64_le x"
    by simp
  have b: "(1000000 :: int) \<noteq> 0"
    by simp
  have d: "sha256_int (tobytes lp64_le [1, 2]) mod 1000000 = 643121"
    by (simp add: tobytes_1_2 sha256_int_1_2)
  from hash_ngram_feature_id [OF v b, of 100000]
  obtain f where h: "hash_ngram lp64_le 100000 1000000 [1, 2] = Inr f"
    and f: "f = 100000 + sha256_int (tobytes lp64_le [1, 2]) mod 1000000"
    and len: "length (tobytes lp64_le [1, 2]) = length [1, 2 :: int] * itemsize lp64_le"
    and items: "\<forall>k < length [1, 2 :: int].
      take (itemsize lp64_le) (drop (k * itemsize lp64_le) (tobytes lp64_le [1, 2])) =
      item_bytes lp64_le ([1, 2] ! k)"
    and occ: "\<forall>unigrams N out j.
      augment_with_ngrams lp64_le unigrams 100000 1000000 N = Inr out \<and>
      j < length (ngram_windows unigrams N) \<and> ngram_windows unigrams N ! j = [1, 2] \<longrightarrow>
      out ! (length unigrams + j) = f"
    by blast
  from f d have f': "f = 743121"
    by simp
  have is8: "itemsize lp64_le = 8"
    by (simp add: lp64_le_def)
  have w: "ngram_windows [5, 1, 2] 2 = [[5, 1], [1, 2]]"
    by (simp add: ngram_windows_eq upto.simps upt_rec numeral_2_eq_2)
  obtain out where out: "augment_with_ngrams lp64_le [5, 1, 2] 100000 1000000 2 = Inr out"
    using augment_valid [of "[5, 1, 2]" lp64_le 1000000] fits by simp
  have c1: "hash_ngram lp64_le 100000 1000000 [1, 2] = Inr 743121"
    using h f' by simp
  have c3: "length (tobytes lp64_le [1, 2]) = 16"
    using len by (simp add: is8)
  from items [rule_format, of 1]
  have c4: "take 8 (drop 8 (tobytes lp64_le [1, 2])) = item_bytes lp64_le 2"
    by (simp add: is8)
  have "length [5, 1, 2 :: int] + 1 = 4"
    by simp
  then have c5: "out ! 4 = 743121"
    using occ [rule_format, of "[5, 1, 2]" 2 out 1] out w f' by (simp del: One_nat_def)
  have c0: "list_all (fits_L lp64_le) [1, 2]"
    using fits by simp
  from c0 b c1 c3 c4 out c5 show ?thesis
    by blast
qed









text \<open>
  C8. An empty sequence comes back unchanged for every vocabulary size, bucket count and
  maximal order, and so does the one-token sequence \<open>[5]\<close> for maximal order 2: no window
  of two tokens fits, so nothing is hashed.
\<close>

theorem augment_empty_and_short:
  "augment_with_ngrams p [] V B N = Inr [] \<and> augment_with_ngrams p [5] V B 2 = Inr [5]"
proof -
  have "ngram_windows [] N = []" "ngram_windows [5] 2 = []"
    by (simp_all add: ngram_windows_empty_iff)
  then show ?thesis
    by (simp add: augment_returns)
qed

theorem augment_empty_and_short_witness:
  "augment_with_ngrams lp64_le [] 100000 1000000 2 = Inr [] \<and>
   augment_with_ngrams lp64_le [5] 100000 1000000 2 = Inr [5]"
  by (rule augment_empty_and_short)




text \<open>
  C10. With an item size that is not zero, a window of \<open>n\<close> tokens serializes to exactly
  \<open>n * itemsize\<close> bytes, so windows of different lengths never serialize to the same
  bytes. Two different windows that \<open>hash_ngram\<close> maps to one feature ID have different
  serializations: they meet only in the hash reduced modulo the bucket count.
\<close>

theorem serialization_separates_windows:
  assumes "0 < itemsize p"
  shows "length (tobytes p w) = length w * itemsize p \<and>
         (length w1 \<noteq> length w2 \<longrightarrow> tobytes p w1 \<noteq> tobytes p w2) \<and>
         (hash_ngram p V B w1 = Inr f \<and> hash_ngram p V B w2 = Inr f \<and> w1 \<noteq> w2 \<longrightarrow>
            tobytes p w1 \<noteq> tobytes p w2 \<and>
            sha256_int (tobytes p w1) mod B = sha256_int (tobytes p w2) mod B)"
proof (intro conjI impI)
  show "length (tobytes p w) = length w * itemsize p"
    by (rule length_tobytes)
next
  assume "length w1 \<noteq> length w2"
  with assms have "length (tobytes p w1) \<noteq> length (tobytes p w2)"
    by (simp add: length_tobytes)
  then show "tobytes p w1 \<noteq> tobytes p w2" by auto
next
  assume h: "hash_ngram p V B w1 = Inr f \<and> hash_ngram p V B w2 = Inr f \<and> w1 \<noteq> w2"
  then have fits: "\<forall>x \<in> set w1. fits_L p x" "\<forall>x \<in> set w2. fits_L p x"
    by (simp_all add: hash_ngram_Inr_iff)
  from tobytes_inj [OF assms fits] h show "tobytes p w1 \<noteq> tobytes p w2"
    by blast
next
  assume h: "hash_ngram p V B w1 = Inr f \<and> hash_ngram p V B w2 = Inr f \<and> w1 \<noteq> w2"
  then have "feature_id p V B w1 = feature_id p V B w2"
    by (simp add: hash_ngram_Inr_iff)
  then show "sha256_int (tobytes p w1) mod B = sha256_int (tobytes p w2) mod B"
    by (simp add: feature_id_def)
qed

theorem serialization_separates_windows_witness:
  "0 < itemsize lp64_le \<and>
   length (tobytes lp64_le [1, 2, 3]) = 24 \<and>
   tobytes lp64_le [1, 2] \<noteq> tobytes lp64_le [1, 2, 3] \<and>
   hash_ngram lp64_le 10 1 [1, 2] = Inr 10 \<and> hash_ngram lp64_le 10 1 [2, 1] = Inr 10 \<and>
   tobytes lp64_le [1, 2] \<noteq> tobytes lp64_le [2, 1]"
proof -
  have p: "0 < itemsize lp64_le"
    by (simp add: lp64_le_def)
  have h: "hash_ngram lp64_le 10 1 [1, 2] = Inr 10" "hash_ngram lp64_le 10 1 [2, 1] = Inr 10"
    by (simp_all add: hash_ngram_cases feature_id_def fits_L_def lp64_le_def)
  from serialization_separates_windows [OF p, of "[1, 2, 3]" "[1, 2]" "[1, 2, 3]"]
  have "length (tobytes lp64_le [1, 2, 3]) = 24 \<and> tobytes lp64_le [1, 2] \<noteq> tobytes lp64_le [1, 2, 3]"
    by (simp add: lp64_le_def)
  moreover from serialization_separates_windows [OF p, of "[]" "[1, 2]" "[2, 1]" 10 1 10] h
  have "tobytes lp64_le [1, 2] \<noteq> tobytes lp64_le [2, 1]"
    by simp
  ultimately show ?thesis
    using p h by simp
qed

end
